theory Spec2Isabelle
  imports Main "HOL-Library.AList" "HOL-Library.List_Lexorder" "HOL-Library.Char_ord"
begin

section \<open>Channel metadata of isoconda: \<open>isoconda/models/channel.py\<close>\<close>

text \<open>
  The module holds two classes, \<open>ChannelGroupInfo\<close> and \<open>ChannelData\<close>. Both are
  immutable after construction: every operation builds a new object from a deep copy,
  so an object is its value and \<open>copy.deepcopy\<close> is the identity of the model.

  A Python \<open>dict\<close> is modelled as the list of its items in insertion order. Assigning
  \<open>d[k] = v\<close> is \<^const>\<open>AList.update\<close> (an existing key keeps its place, a new key is
  appended), \<open>d.pop(k, None)\<close> is \<^const>\<open>AList.delete\<close>, and a lookup is
  \<^const>\<open>map_of\<close>. A dictionary has each key once, so its item list has distinct keys.

  Strings are compared as Python compares them, lexicographically by code point: the
  order of \<open>char list\<close> over the byte order of \<open>char\<close> (UTF-8 keeps the code point
  order).
\<close>

subsection \<open>Values and errors\<close>

text \<open>The values a field bag (\<open>Dict[str, Any]\<close>) holds: decoded JSON.\<close>

datatype json =
    JNull
  | JBool bool
  | JInt int
  | JStr string
  | JList "json list"
  | JObj "(string \<times> json) list"

type_synonym fields = "(string \<times> json) list"

text \<open>
  The exceptions the module can raise: \<open>InvalidChannel\<close> (with the offending schema
  version), the \<open>KeyError\<close> of a subscript on a missing key, the \<open>TypeError\<close> of an
  ordering comparison between \<open>None\<close> and an \<open>int\<close>, and the \<open>ValueError\<close> of
  \<open>max\<close> on an empty sequence.
\<close>

datatype error =
    InvalidChannel int
  | KeyError string
  | TypeError
  | ValueError

subsection \<open>The collaborators: package records, repositories, version order\<close>

text \<open>
  Modelled from the spec: \<open>PackageRecord\<close> of \<open>isoconda/models/repo.py\<close>, of which
  \<open>rescale\<close> reads three properties: the version (a string), the timestamp (an optional
  integer) and the owning subdir (a string).
\<close>

record package_record =
  pkg_version :: string
  pkg_timestamp :: "int option"
  pkg_subdir :: string

text \<open>
  Modelled from the spec: \<open>RepoData\<close> of \<open>isoconda/models/repo.py\<close>, one subdir's
  listing. It exposes its subdir identifier, the membership test \<open>name in repo\<close> and the
  lookup \<open>repo[name]\<close> of the sequence of records of a group name.
\<close>

record repo_data =
  repo_subdir :: string
  repo_groups :: "(string \<times> package_record list) list"

definition repo_contains :: "repo_data \<Rightarrow> string \<Rightarrow> bool" where
  "repo_contains repo nm = (map_of (repo_groups repo) nm \<noteq> None)"

text \<open>
  \<open>utils.create_order\<close> (the version order) and \<open>str\<close> of an order key are parameters
  \<open>create_order :: string \<Rightarrow> 'k\<close> and \<open>str_order :: 'k \<Rightarrow> string\<close> of \<open>rescale\<close>, for a
  totally ordered key type \<open>'k\<close>.
\<close>

subsection \<open>\<open>ChannelGroupInfo\<close>\<close>

record group_info =
  info_name :: string
  info_data :: fields

text \<open>\<open>ChannelGroupInfo(name, data)\<close>: the constructor copies the field bag.\<close>

definition ChannelGroupInfo :: "string \<Rightarrow> fields \<Rightarrow> group_info" where
  "ChannelGroupInfo nm dat = \<lparr>info_name = nm, info_data = dat\<rparr>"


text \<open>The property \<open>version\<close>: \<open>self._data['version']\<close>, a \<open>KeyError\<close> without the key.\<close>

definition info_version :: "group_info \<Rightarrow> error + json" where
  "info_version self =
     (case map_of (info_data self) ''version'' of
        None \<Rightarrow> Inl (KeyError ''version'')
      | Some v \<Rightarrow> Inr v)"

definition info_dump :: "group_info \<Rightarrow> fields" where
  "info_dump self = info_data self"

definition update_latest :: "group_info \<Rightarrow> string \<Rightarrow> int option \<Rightarrow> group_info" where
  "update_latest self version timestamp =
     (let dat = info_data self;
          dat1 = (case timestamp of
                    None \<Rightarrow> AList.delete ''timestamp'' dat
                  | Some t \<Rightarrow>
                      if t = 0 then AList.delete ''timestamp'' dat
                      else AList.update ''timestamp'' (JInt t) dat);
          dat2 = AList.update ''version'' (JStr version) dat1
      in ChannelGroupInfo (info_name self) dat2)"

definition update_subdirs :: "group_info \<Rightarrow> string list \<Rightarrow> group_info" where
  "update_subdirs self sds =
     (let dat = info_data self;
          dat1 = AList.update ''subdirs'' (JList (map JStr sds)) dat
      in ChannelGroupInfo (info_name self) dat1)"

text \<open>
  \<open>__eq__\<close> compares the primary keys, which are the names. \<open>__hash__\<close> returns the hash
  of the name taken at construction; Python's string hash is the parameter \<open>hash\<close>.
\<close>

definition info_eq :: "group_info \<Rightarrow> group_info \<Rightarrow> bool" where
  "info_eq self other = (info_name self = info_name other)"

definition info_hash :: "(string \<Rightarrow> int) \<Rightarrow> group_info \<Rightarrow> int" where
  "info_hash hash self = hash (info_name self)"

subsection \<open>\<open>ChannelData\<close>\<close>

record channel_data =
  subdirs :: "string list"
  groups :: "(string \<times> group_info) list"

text \<open>
  The dictionary \<open>from_data\<close> reads and \<open>dump\<close> writes: the values under the three keys
  of the \<open>channeldata.json\<close> schema, and in \<open>dict_others\<close> the items under every other
  top-level key. \<open>from_data\<close> subscripts the three keys and never looks at another one;
  \<open>dump\<close> builds a new dictionary and assigns the three keys only.
\<close>

record channeldata_dict =
  channeldata_version :: int
  dict_packages :: "(string \<times> fields) list"
  dict_subdirs :: "string list"
  dict_others :: "(string \<times> json) list"

definition VERSION :: int where
  "VERSION = 1"

text \<open>\<open>sorted(s)\<close> of a set \<open>s\<close> given by a list of its elements.\<close>

definition sorted_set :: "string list \<Rightarrow> string list" where
  "sorted_set xs = sort (remdups xs)"

text \<open>\<open>s.add(x)\<close> on a set kept as the list of its elements, each once.\<close>

definition set_add :: "string \<Rightarrow> string list \<Rightarrow> string list" where
  "set_add x s = (if x \<in> set s then s else s @ [x])"

text \<open>The loop of \<open>from_data\<close> over \<open>channeldata['packages'].items()\<close>.\<close>

fun from_data_loop ::
  "(string \<times> fields) list \<Rightarrow> (string \<times> group_info) list \<Rightarrow> (string \<times> group_info) list"
where
  "from_data_loop [] grps = grps"
| "from_data_loop ((nm, dat) # items) grps =
     (let info = ChannelGroupInfo nm dat
      in from_data_loop items (AList.update (info_name info) info grps))"

definition from_data :: "channeldata_dict \<Rightarrow> error + channel_data" where
  "from_data channeldata =
     (let repodata_version = channeldata_version channeldata in
      if repodata_version \<noteq> VERSION then Inl (InvalidChannel repodata_version)
      else
        (let sds = dict_subdirs channeldata;
             grps = from_data_loop (dict_packages channeldata) []
         in Inr \<lparr>subdirs = sds, groups = grps\<rparr>))"

text \<open>The dictionary comprehension of \<open>dump\<close> over \<open>self._groups.items()\<close>.\<close>

fun dump_loop ::
  "(string \<times> group_info) list \<Rightarrow> (string \<times> fields) list \<Rightarrow> (string \<times> fields) list"
where
  "dump_loop [] pkgs = pkgs"
| "dump_loop ((nm, grp) # items) pkgs =
     dump_loop items (AList.update nm (info_dump grp) pkgs)"

definition dump :: "channel_data \<Rightarrow> channeldata_dict" where
  "dump self =
     \<lparr>channeldata_version = VERSION,
      dict_packages = dump_loop (groups self) [],
      dict_subdirs = sort (subdirs self),
      dict_others = []\<rparr>"

text \<open>
  The loop of \<open>merge\<close> over \<open>sorted(keys)\<close>; \<open>other[key]\<close> raises \<open>KeyError\<close> on a key
  that \<open>other\<close> lacks.
\<close>

fun merge_loop ::
  "(string \<times> group_info) list \<Rightarrow> (string \<times> group_info) list \<Rightarrow> string list \<Rightarrow>
   (string \<times> group_info) list \<Rightarrow> error + (string \<times> group_info) list"
where
  "merge_loop sg og [] grps = Inr grps"
| "merge_loop sg og (key # keys) grps =
     (case map_of sg key of
        Some g \<Rightarrow> merge_loop sg og keys (AList.update key g grps)
      | None \<Rightarrow>
          (case map_of og key of
             Some g \<Rightarrow> merge_loop sg og keys (AList.update key g grps)
           | None \<Rightarrow> Inl (KeyError key)))"

definition merge :: "channel_data \<Rightarrow> channel_data \<Rightarrow> error + channel_data" where
  "merge self other =
     (let sds = sorted_set (subdirs self @ subdirs other);
          keys = sorted_set (map fst (groups self) @ map fst (groups other))
      in case merge_loop (groups self) (groups other) keys [] of
           Inl e \<Rightarrow> Inl e
         | Inr grps \<Rightarrow> Inr \<lparr>subdirs = sds, groups = grps\<rparr>)"

text \<open>
  \<open>max\<close> over the pairs \<open>(create_order(version), timestamp)\<close>. Python compares two
  tuples at the first position where they are not equal; there \<open>>\<close> between two order
  keys or two integers is the order, and \<open>>\<close> between \<open>None\<close> and an integer raises
  \<open>TypeError\<close>. Pairs that are equal throughout are not greater. \<open>max\<close> keeps the first
  of the greatest items: an item replaces the running maximum when it is greater.
\<close>

fun tuple_gt :: "'k::linorder \<times> int option \<Rightarrow> 'k \<times> int option \<Rightarrow> error + bool" where
  "tuple_gt (k1, t1) (k2, t2) =
     (if k1 \<noteq> k2 then Inr (k1 > k2)
      else if t1 = t2 then Inr False
      else (case (t1, t2) of
              (Some a, Some b) \<Rightarrow> Inr (a > b)
            | _ \<Rightarrow> Inl TypeError))"

fun max_loop ::
  "'k::linorder \<times> int option \<Rightarrow> ('k \<times> int option) list \<Rightarrow> error + 'k \<times> int option"
where
  "max_loop m [] = Inr m"
| "max_loop m (x # xs) =
     (case tuple_gt x m of
        Inl e \<Rightarrow> Inl e
      | Inr b \<Rightarrow> max_loop (if b then x else m) xs)"

definition py_max :: "('k::linorder \<times> int option) list \<Rightarrow> error + 'k \<times> int option" where
  "py_max xs = (case xs of [] \<Rightarrow> Inl ValueError | x # rest \<Rightarrow> max_loop x rest)"

text \<open>
  The inner loop of \<open>rescale\<close> over the repos, for one group name: the records of the
  name are appended to \<open>packages\<close> and the subdir of each repo that contains the name is
  added to \<open>channel_subdirs\<close>.
\<close>

fun collect ::
  "string \<Rightarrow> repo_data list \<Rightarrow> package_record list \<times> string list \<Rightarrow>
   package_record list \<times> string list"
where
  "collect nm [] st = st"
| "collect nm (repo # repos) (packages, channel_subdirs) =
     (case map_of (repo_groups repo) nm of
        Some rs \<Rightarrow> collect nm repos (packages @ rs, set_add (repo_subdir repo) channel_subdirs)
      | None \<Rightarrow> collect nm repos (packages, channel_subdirs))"

text \<open>
  The generator of \<open>rescale\<close>:
  \<open>(utils.create_order(package.version), package.timestamp) for package in packages\<close>.
\<close>

definition order_pairs ::
  "(string \<Rightarrow> 'k::linorder) \<Rightarrow> package_record list \<Rightarrow> ('k \<times> int option) list"
where
  "order_pairs create_order packages =
     map (\<lambda>package. (create_order (pkg_version package), pkg_timestamp package)) packages"

text \<open>The body of the outer loop, for a group with at least one record.\<close>

definition rescale_group ::
  "(string \<Rightarrow> 'k::linorder) \<Rightarrow> ('k \<Rightarrow> string) \<Rightarrow> group_info \<Rightarrow> package_record list \<Rightarrow>
   error + group_info"
where
  "rescale_group create_order str_order info packages =
     (let sds = sorted_set (map pkg_subdir packages) in
      case py_max (order_pairs create_order packages) of
        Inl e \<Rightarrow> Inl e
      | Inr (order, timestamp) \<Rightarrow>
          Inr (update_latest (update_subdirs info sds) (str_order order) timestamp))"

fun rescale_loop ::
  "(string \<Rightarrow> 'k::linorder) \<Rightarrow> ('k \<Rightarrow> string) \<Rightarrow> repo_data list \<Rightarrow>
   (string \<times> group_info) list \<Rightarrow> string list \<times> (string \<times> group_info) list \<Rightarrow>
   error + string list \<times> (string \<times> group_info) list"
where
  "rescale_loop create_order str_order repos [] st = Inr st"
| "rescale_loop create_order str_order repos ((nm, info) # items) (channel_subdirs, grps) =
     (case collect nm repos ([], channel_subdirs) of
        (packages, channel_subdirs') \<Rightarrow>
          if packages \<noteq> [] then
            (case rescale_group create_order str_order info packages of
               Inl e \<Rightarrow> Inl e
             | Inr modified_info \<Rightarrow>
                 rescale_loop create_order str_order repos items
                   (channel_subdirs', AList.update nm modified_info grps))
          else rescale_loop create_order str_order repos items (channel_subdirs', grps))"

text \<open>
  \<open>rescale\<close>. The result's subdir list is \<open>list(channel_subdirs)\<close> of a Python set, whose
  order the language leaves open; the model lists the set in insertion order, and the
  theorems below read it through \<^const>\<open>set\<close> only.
\<close>

definition rescale ::
  "(string \<Rightarrow> 'k::linorder) \<Rightarrow> ('k \<Rightarrow> string) \<Rightarrow> channel_data \<Rightarrow> repo_data list \<Rightarrow>
   error + channel_data"
where
  "rescale create_order str_order self repos =
     (case rescale_loop create_order str_order repos (groups self) ([], []) of
        Inl e \<Rightarrow> Inl e
      | Inr (channel_subdirs, grps) \<Rightarrow> Inr \<lparr>subdirs = channel_subdirs, groups = grps\<rparr>)"

subsection \<open>The vocabulary of the specification\<close>

text \<open>
  The order the specification gives to timestamps (an absent one is lowest) and to the
  pairs \<open>(order key, timestamp)\<close> (lexicographic), and the winner among a list of
  pairs: a member that every member is below or equal to.
\<close>

definition ts_le :: "int option \<Rightarrow> int option \<Rightarrow> bool" where
  "ts_le a b =
     (case a of None \<Rightarrow> True | Some x \<Rightarrow> (case b of None \<Rightarrow> False | Some y \<Rightarrow> x \<le> y))"

definition pair_le :: "'k::linorder \<times> int option \<Rightarrow> 'k \<times> int option \<Rightarrow> bool" where
  "pair_le p q = (fst p < fst q \<or> (fst p = fst q \<and> ts_le (snd p) (snd q)))"

definition is_winner :: "'k::linorder \<times> int option \<Rightarrow> ('k \<times> int option) list \<Rightarrow> bool" where
  "is_winner w ps = (w \<in> set ps \<and> (\<forall>p \<in> set ps. pair_le p w))"

text \<open>The \<open>timestamp\<close> entry a group gets from a winning timestamp: none for \<open>None\<close> and \<open>0\<close>.\<close>

definition timestamp_field :: "int option \<Rightarrow> json option" where
  "timestamp_field t = (case t of None \<Rightarrow> None | Some n \<Rightarrow> if n = 0 then None else Some (JInt n))"

text \<open>Every record of a group name across the repos, in the order of the repos.\<close>

definition records_for :: "string \<Rightarrow> repo_data list \<Rightarrow> package_record list" where
  "records_for nm repos =
     concat (map (\<lambda>repo. case map_of (repo_groups repo) nm of None \<Rightarrow> [] | Some rs \<Rightarrow> rs) repos)"

text \<open>The subdirs of the repos that contain a group name.\<close>

definition containing :: "string \<Rightarrow> repo_data list \<Rightarrow> string list" where
  "containing nm repos = map repo_subdir (filter (\<lambda>repo. repo_contains repo nm) repos)"

text \<open>The group \<open>merge\<close> keeps for a key: the calling snapshot's, else the other's.\<close>

definition prefer_self ::
  "(string \<times> group_info) list \<Rightarrow> (string \<times> group_info) list \<Rightarrow> string \<Rightarrow> group_info option"
where
  "prefer_self sg og key = (case map_of sg key of Some g \<Rightarrow> Some g | None \<Rightarrow> map_of og key)"

text \<open>The invariant of a snapshot: every key of the group mapping is the name of its group.\<close>

definition keys_named :: "channel_data \<Rightarrow> bool" where
  "keys_named cd = (\<forall>(k, g) \<in> set (groups cd). info_name g = k)"

text \<open>The strings of a group's \<open>subdirs\<close> field, and those of all groups of a snapshot.\<close>

fun json_strings :: "json list \<Rightarrow> string list" where
  "json_strings [] = []"
| "json_strings (JStr s # js) = s # json_strings js"
| "json_strings (_ # js) = json_strings js"

definition group_subdirs :: "group_info \<Rightarrow> string list" where
  "group_subdirs g =
     (case map_of (info_data g) ''subdirs'' of Some (JList js) \<Rightarrow> json_strings js | _ \<Rightarrow> [])"

definition surviving_subdirs :: "channel_data \<Rightarrow> string set" where
  "surviving_subdirs cd = (\<Union>(nm, g) \<in> set (groups cd). set (group_subdirs g))"

text \<open>
  Repos whose listings agree with themselves: a group name a repo contains has at least
  one record there, and every record carries the subdir of its repo.
\<close>

definition consistent :: "repo_data list \<Rightarrow> bool" where
  "consistent repos =
     (\<forall>repo \<in> set repos. \<forall>(nm, rs) \<in> set (repo_groups repo).
        rs \<noteq> [] \<and> (\<forall>p \<in> set rs. pkg_subdir p = repo_subdir repo))"

text \<open>Repos in which every record has a timestamp.\<close>

definition timestamps_present :: "repo_data list \<Rightarrow> bool" where
  "timestamps_present repos =
     (\<forall>repo \<in> set repos. \<forall>(nm, rs) \<in> set (repo_groups repo).
        \<forall>p \<in> set rs. pkg_timestamp p \<noteq> None)"

subsection \<open>Example data\<close>

text \<open>Concrete groups, snapshots and dictionaries, on which the theorems are exercised.\<close>

definition numpy_info :: group_info where
  "numpy_info = ChannelGroupInfo ''numpy''
     [(''version'', JStr ''1.0''), (''timestamp'', JInt 50), (''license'', JStr ''BSD'')]"

definition scipy_info :: group_info where
  "scipy_info = ChannelGroupInfo ''scipy'' [(''version'', JStr ''0.9'')]"

definition numpy_other :: group_info where
  "numpy_other = ChannelGroupInfo ''numpy'' [(''version'', JStr ''0.1''), (''home'', JStr ''x'')]"

definition example_dict :: channeldata_dict where
  "example_dict =
     \<lparr>channeldata_version = 1,
      dict_packages =
        [(''numpy'',
          [(''version'', JStr ''1.0''), (''timestamp'', JInt 50), (''license'', JStr ''BSD'')]),
         (''bare'', [(''home'', JStr ''x'')])],
      dict_subdirs = [''osx-64'', ''linux-64''],
      dict_others = []\<rparr>"

text \<open>The same dictionary with one more top-level key, and the snapshot parsed from it.\<close>

definition extra_dict :: channeldata_dict where
  "extra_dict = example_dict\<lparr>dict_others := [(''generator'', JStr ''conda-index'')]\<rparr>"

definition extra_parsed :: channel_data where
  "extra_parsed =
     \<lparr>subdirs = [''osx-64'', ''linux-64''],
      groups =
        [(''numpy'',
          ChannelGroupInfo ''numpy''
            [(''version'', JStr ''1.0''), (''timestamp'', JInt 50), (''license'', JStr ''BSD'')]),
         (''bare'', ChannelGroupInfo ''bare'' [(''home'', JStr ''x'')])]\<rparr>"

definition channel_a :: channel_data where
  "channel_a = \<lparr>subdirs = [''osx-64'', ''linux-64''], groups = [(''numpy'', numpy_info)]\<rparr>"

definition channel_b :: channel_data where
  "channel_b =
     \<lparr>subdirs = [''noarch'', ''linux-64''],
      groups = [(''scipy'', scipy_info), (''numpy'', numpy_other)]\<rparr>"

text \<open>
  A snapshot with two groups and repos for it: two listings with a record of \<open>numpy\<close>
  each, a listing whose two \<open>numpy\<close> records have the same version and one of them no
  timestamp, and a listing that has the name \<open>numpy\<close> with no record. The example version
  order takes the version text itself as the key, and the key as its own string.
\<close>

definition text_order :: "string \<Rightarrow> string" where
  "text_order v = v"

definition key_text :: "string \<Rightarrow> string" where
  "key_text k = k"

definition numpy_channel :: channel_data where
  "numpy_channel =
     \<lparr>subdirs = [''win-64''],
      groups = [(''numpy'', ChannelGroupInfo ''numpy'' [(''version'', JStr ''1.0'')]),
                (''gone'', ChannelGroupInfo ''gone'' [(''version'', JStr ''3.1'')])]\<rparr>"

definition linux_repo :: repo_data where
  "linux_repo =
     \<lparr>repo_subdir = ''linux-64'',
      repo_groups =
        [(''numpy'',
          [\<lparr>pkg_version = ''1.2.0'', pkg_timestamp = Some 100, pkg_subdir = ''linux-64''\<rparr>])]\<rparr>"

definition osx_repo :: repo_data where
  "osx_repo =
     \<lparr>repo_subdir = ''osx-64'',
      repo_groups =
        [(''numpy'',
          [\<lparr>pkg_version = ''1.1.0'', pkg_timestamp = Some 200, pkg_subdir = ''osx-64''\<rparr>])]\<rparr>"

definition tie_repo :: repo_data where
  "tie_repo =
     \<lparr>repo_subdir = ''linux-64'',
      repo_groups =
        [(''numpy'',
          [\<lparr>pkg_version = ''1.2.0'', pkg_timestamp = None, pkg_subdir = ''linux-64''\<rparr>,
           \<lparr>pkg_version = ''1.2.0'', pkg_timestamp = Some 100, pkg_subdir = ''linux-64''\<rparr>])]\<rparr>"

definition empty_repo :: repo_data where
  "empty_repo = \<lparr>repo_subdir = ''linux-64'', repo_groups = [(''numpy'', [])]\<rparr>"

definition rescaled_numpy :: group_info where
  "rescaled_numpy =
     \<lparr>info_name = ''numpy'',
      info_data =
        [(''version'', JStr ''1.2.0''),
         (''subdirs'', JList [JStr ''linux-64'', JStr ''osx-64'']),
         (''timestamp'', JInt 100)]\<rparr>"

definition rescaled_channel :: channel_data where
  "rescaled_channel =
     \<lparr>subdirs = [''linux-64'', ''osx-64''], groups = [(''numpy'', rescaled_numpy)]\<rparr>"

definition emptied_channel :: channel_data where
  "emptied_channel = \<lparr>subdirs = [''linux-64''], groups = []\<rparr>"

section \<open>Auxiliary facts\<close>

subsection \<open>Dictionaries, parsing and serialising\<close>


lemma update_fresh: "k \<notin> fst ` set al \<Longrightarrow> AList.update k v al = al @ [(k, v)]"
  by (induction al) auto

lemma set_update_cases:
  "p \<in> set (AList.update k v al) \<Longrightarrow> p = (k, v) \<or> p \<in> set al"
  by (induction al) (auto split: if_splits)

lemma from_data_loop_append:
  "distinct (map fst items) \<Longrightarrow> fst ` set items \<inter> fst ` set acc = {} \<Longrightarrow>
   from_data_loop items acc = acc @ map (\<lambda>(n, d). (n, ChannelGroupInfo n d)) items"
proof (induction items arbitrary: acc)
  case Nil
  then show ?case by simp
next
  case (Cons p items)
  obtain n d where p: "p = (n, d)" by (cases p)
  have "n \<notin> fst ` set acc" using Cons.prems p by auto
  then have u: "AList.update n (ChannelGroupInfo n d) acc = acc @ [(n, ChannelGroupInfo n d)]"
    by (rule update_fresh)
  show ?case using Cons p u
    by (auto simp: ChannelGroupInfo_def)
qed

lemma dump_loop_append:
  "distinct (map fst items) \<Longrightarrow> fst ` set items \<inter> fst ` set acc = {} \<Longrightarrow>
   dump_loop items acc = acc @ map (\<lambda>(n, g). (n, info_dump g)) items"
proof (induction items arbitrary: acc)
  case Nil
  then show ?case by simp
next
  case (Cons p items)
  obtain n g where p: "p = (n, g)" by (cases p)
  have "n \<notin> fst ` set acc" using Cons.prems p by auto
  then have u: "AList.update n (info_dump g) acc = acc @ [(n, info_dump g)]"
    by (rule update_fresh)
  show ?case using Cons p u by auto
qed

lemma from_data_loop_keys:
  "fst ` set (from_data_loop items acc) = fst ` set acc \<union> fst ` set items"
  by (induction items acc rule: from_data_loop.induct)
     (auto simp: AList.dom_update ChannelGroupInfo_def Let_def)

lemma from_data_loop_names:
  "\<forall>(k, g) \<in> set acc. info_name g = k \<Longrightarrow>
   \<forall>(k, g) \<in> set (from_data_loop items acc). info_name g = k"
proof (induction items acc rule: from_data_loop.induct)
  case (1 grps)
  then show ?case by simp
next
  case (2 nm dat items grps)
  have "\<forall>(k, g) \<in> set (AList.update nm (ChannelGroupInfo nm dat) grps). info_name g = k"
    using "2.prems" set_update_cases[of _ nm "ChannelGroupInfo nm dat" grps]
    by (fastforce simp: ChannelGroupInfo_def)
  then show ?case using "2.IH" by (simp add: ChannelGroupInfo_def)
qed

subsection \<open>Merging\<close>

lemma merge_loop_result:
  "set keys \<subseteq> fst ` set sg \<union> fst ` set og \<Longrightarrow>
   \<exists>r. merge_loop sg og keys acc = Inr r \<and>
       fst ` set r = fst ` set acc \<union> set keys \<and>
       (\<forall>key. map_of r key = (if key \<in> set keys then prefer_self sg og key else map_of acc key))"
proof (induction keys arbitrary: acc)
  case Nil
  then show ?case by simp
next
  case (Cons key keys)
  have sub: "set keys \<subseteq> fst ` set sg \<union> fst ` set og" using Cons.prems by simp
  have "key \<in> fst ` set sg \<union> fst ` set og" using Cons.prems by simp
  then have "map_of sg key \<noteq> None \<or> map_of og key \<noteq> None"
    by (auto simp: map_of_eq_None_iff)
  then have "\<exists>g. prefer_self sg og key = Some g"
    by (cases "map_of sg key") (auto simp: prefer_self_def)
  then obtain g where g: "prefer_self sg og key = Some g" by blast
  have step: "merge_loop sg og (key # keys) acc = merge_loop sg og keys (AList.update key g acc)"
    using g by (auto simp: prefer_self_def split: option.splits)
  from Cons.IH[OF sub, of "AList.update key g acc"]
  obtain r where r: "merge_loop sg og keys (AList.update key g acc) = Inr r"
    "fst ` set r = fst ` set (AList.update key g acc) \<union> set keys"
    "\<forall>k. map_of r k = (if k \<in> set keys then prefer_self sg og k
                         else map_of (AList.update key g acc) k)"
    by blast
  have "fst ` set r = fst ` set acc \<union> set (key # keys)"
    using r(2) by (auto simp: AList.dom_update)
  moreover have "\<forall>k. map_of r k = (if k \<in> set (key # keys) then prefer_self sg og k else map_of acc k)"
    using r(3) g by (auto simp: AList.update_conv')
  ultimately show ?case using step r(1) by simp
qed

lemma merge_loop_names:
  "\<forall>(k, g) \<in> set sg. info_name g = k \<Longrightarrow> \<forall>(k, g) \<in> set og. info_name g = k \<Longrightarrow>
   \<forall>(k, g) \<in> set acc. info_name g = k \<Longrightarrow> merge_loop sg og keys acc = Inr r \<Longrightarrow>
   \<forall>(k, g) \<in> set r. info_name g = k"
proof (induction keys arbitrary: acc)
  case Nil
  then show ?case by simp
next
  case (Cons key keys)
  show ?case
  proof (cases "prefer_self sg og key")
    case None
    then show ?thesis using Cons.prems(4)
      by (simp add: prefer_self_def split: option.splits)
  next
    case (Some g)
    then have "(key, g) \<in> set sg \<or> (key, g) \<in> set og"
      by (auto simp: prefer_self_def split: option.splits dest: map_of_SomeD)
    then have n: "info_name g = key" using Cons.prems(1,2) by auto
    have a: "\<forall>(k, g) \<in> set (AList.update key g acc). info_name g = k"
    proof (clarify)
      fix k h assume "(k, h) \<in> set (AList.update key g acc)"
      then have "(k, h) = (key, g) \<or> (k, h) \<in> set acc"
        by (induction acc) (auto split: if_splits)
      then show "info_name h = k" using n Cons.prems(3) by auto
    qed
    have "merge_loop sg og keys (AList.update key g acc) = Inr r"
      using Cons.prems(4) Some by (auto simp: prefer_self_def split: option.splits)
    from Cons.IH[OF Cons.prems(1,2) a this] show ?thesis .
  qed
qed

lemma sorted_set_eq: "sorted_set xs = sorted_list_of_set (set xs)"
  by (simp add: sorted_set_def sorted_list_of_set_sort_remdups)

lemma set_sorted_set: "set (sorted_set xs) = set xs"
  by (simp add: sorted_set_def)

subsection \<open>The maximum of the pairs\<close>

lemma ts_le_refl: "ts_le a a"
  by (simp add: ts_le_def split: option.splits)

lemma ts_le_trans: "ts_le a b \<Longrightarrow> ts_le b c \<Longrightarrow> ts_le a c"
  by (auto simp: ts_le_def split: option.splits)

lemma ts_le_total: "ts_le a b \<or> ts_le b a"
  by (auto simp: ts_le_def split: option.splits)

lemma pair_le_refl: "pair_le p p"
  by (simp add: pair_le_def ts_le_refl)

lemma pair_le_trans: "pair_le p q \<Longrightarrow> pair_le q r \<Longrightarrow> pair_le p r"
  unfolding pair_le_def using ts_le_trans[of "snd p" "snd q" "snd r"] by auto

lemma pair_le_total: "pair_le p q \<or> pair_le q p"
  using ts_le_total[of "snd p" "snd q"] by (auto simp: pair_le_def)

lemma pair_le_antisym: "pair_le p q \<Longrightarrow> pair_le q p \<Longrightarrow> p = q"
  by (cases p; cases q) (auto simp: pair_le_def ts_le_def split: option.splits)

lemma tuple_gt_Inr: "tuple_gt x m = Inr b \<Longrightarrow> b = (\<not> pair_le x m)"
  by (cases x; cases m) (auto simp: pair_le_def ts_le_def split: if_splits option.splits)

lemma max_loop_winner:
  "max_loop m xs = Inr w \<Longrightarrow> w \<in> set (m # xs) \<and> (\<forall>p \<in> set (m # xs). pair_le p w)"
proof (induction xs arbitrary: m)
  case Nil
  then show ?case by (simp add: pair_le_refl)
next
  case (Cons x xs)
  obtain b where b: "tuple_gt x m = Inr b"
    using Cons.prems by (cases "tuple_gt x m") simp_all
  have rest: "max_loop (if b then x else m) xs = Inr w"
    using Cons.prems b by simp
  let ?m = "if b then x else m"
  from Cons.IH[OF rest] have w: "w \<in> set (?m # xs)" and le: "\<forall>p \<in> set (?m # xs). pair_le p w"
    by blast+
  have mw: "pair_le ?m w" using le by simp
  have bd: "b = (\<not> pair_le x m)" by (rule tuple_gt_Inr[OF b])
  have xm: "pair_le x ?m"
  proof (cases b)
    case True
    then show ?thesis by (simp add: pair_le_refl)
  next
    case False
    then show ?thesis using bd by simp
  qed
  have mm: "pair_le m ?m"
  proof (cases b)
    case True
    then have "\<not> pair_le x m" using bd by simp
    then have "pair_le m x" using pair_le_total[of x m] by blast
    then show ?thesis using True by simp
  next
    case False
    then show ?thesis by (simp add: pair_le_refl)
  qed
  have "pair_le x w" by (rule pair_le_trans[OF xm mw])
  moreover have "pair_le m w" by (rule pair_le_trans[OF mm mw])
  moreover have "w \<in> set (m # x # xs)" using w by (cases b) auto
  ultimately show ?case using le by auto
qed

lemma py_max_winner: "py_max ps = Inr w \<Longrightarrow> is_winner w ps"
proof (cases ps)
  case Nil
  then show "py_max ps = Inr w \<Longrightarrow> is_winner w ps" by (simp add: py_max_def)
next
  case (Cons m xs)
  assume "py_max ps = Inr w"
  then have "max_loop m xs = Inr w" using Cons by (simp add: py_max_def)
  from max_loop_winner[OF this] show "is_winner w ps" using Cons by (simp add: is_winner_def)
qed

lemma is_winner_unique:
  assumes "is_winner w ps" and "is_winner w' ps"
  shows "w = w'"
proof -
  have "pair_le w w'" using assms by (simp add: is_winner_def)
  moreover have "pair_le w' w" using assms by (simp add: is_winner_def)
  ultimately show ?thesis by (rule pair_le_antisym)
qed

lemma max_loop_total:
  "\<forall>p \<in> set (m # xs). snd p \<noteq> None \<Longrightarrow> \<exists>w. max_loop m xs = Inr w"
proof (induction xs arbitrary: m)
  case Nil
  then show ?case by simp
next
  case (Cons x xs)
  have "\<exists>b. tuple_gt x m = Inr b"
    using Cons.prems by (cases x; cases m) (auto split: option.splits)
  then obtain b where b: "tuple_gt x m = Inr b" by blast
  have "\<forall>p \<in> set ((if b then x else m) # xs). snd p \<noteq> None" using Cons.prems by auto
  from Cons.IH[OF this] show ?case using b by simp
qed

lemma py_max_present:
  assumes "ps \<noteq> []" and "\<forall>p \<in> set ps. snd p \<noteq> None"
  shows "\<exists>w. py_max ps = Inr w \<and> is_winner w ps"
proof (cases ps)
  case Nil
  then show ?thesis using assms(1) by simp
next
  case (Cons m xs)
  from max_loop_total[of m xs] assms(2) Cons
  obtain w where "max_loop m xs = Inr w" by auto
  then have w: "py_max ps = Inr w" using Cons by (simp add: py_max_def)
  from py_max_winner[OF w] w show ?thesis by blast
qed

lemma set_set_add: "set (set_add x s) = insert x (set s)"
  by (auto simp: set_add_def)

lemma collect_packages: "fst (collect nm repos (ps, cs)) = ps @ records_for nm repos"
proof (induction repos arbitrary: ps cs)
  case Nil
  then show ?case by (simp add: records_for_def)
next
  case (Cons repo repos)
  show ?case
    by (cases "map_of (repo_groups repo) nm") (simp_all add: Cons.IH records_for_def)
qed

lemma collect_subdirs:
  "set (snd (collect nm repos (ps, cs))) = set cs \<union> set (containing nm repos)"
proof (induction repos arbitrary: ps cs)
  case Nil
  then show ?case by (simp add: containing_def)
next
  case (Cons repo repos)
  show ?case
    by (cases "map_of (repo_groups repo) nm")
       (simp_all add: Cons.IH containing_def repo_contains_def set_set_add)
qed

subsection \<open>The loops of rescale\<close>

lemma rescale_loop_step:
  "rescale_loop co so repos ((nm, info) # items) (cs, gs) =
     (if records_for nm repos \<noteq> [] then
        (case rescale_group co so info (records_for nm repos) of
           Inl e \<Rightarrow> Inl e
         | Inr g \<Rightarrow> rescale_loop co so repos items
                     (snd (collect nm repos ([], cs)), AList.update nm g gs))
      else rescale_loop co so repos items (snd (collect nm repos ([], cs)), gs))"
proof -
  obtain ps cs1 where c: "collect nm repos ([], cs) = (ps, cs1)"
    by (cases "collect nm repos ([], cs)")
  have "ps = records_for nm repos"
    using collect_packages[of nm repos "[]" cs] c by simp
  with c have c': "collect nm repos ([], cs) = (records_for nm repos, cs1)" by simp
  show ?thesis by (simp add: c' split: sum.split)
qed

lemma rescale_loop_inv:
  "rescale_loop co so repos items (cs, gs) = Inr (cs', gs') \<Longrightarrow>
   set cs' = set cs \<union> (\<Union>nm \<in> fst ` set items. set (containing nm repos)) \<and>
   fst ` set gs' = fst ` set gs \<union> {nm \<in> fst ` set items. records_for nm repos \<noteq> []} \<and>
   (\<forall>nm g. (nm, g) \<in> set gs' \<longrightarrow>
      (nm, g) \<in> set gs \<or>
      (\<exists>info. (nm, info) \<in> set items \<and> records_for nm repos \<noteq> [] \<and>
              rescale_group co so info (records_for nm repos) = Inr g))"
proof (induction items arbitrary: cs gs)
  case Nil
  then show ?case by simp
next
  case (Cons item items)
  obtain nm info where item: "item = (nm, info)" by (cases item)
  let ?cs1 = "snd (collect nm repos ([], cs))"
  have cs1: "set ?cs1 = set cs \<union> set (containing nm repos)"
    by (rule collect_subdirs)
  show ?case
  proof (cases "records_for nm repos = []")
    case True
    then have "rescale_loop co so repos items (?cs1, gs) = Inr (cs', gs')"
      using Cons.prems item by (simp add: rescale_loop_step del: rescale_loop.simps)
    note ih = Cons.IH[OF this]
    have a: "set cs' = set cs \<union> (\<Union>nm \<in> fst ` set (item # items). set (containing nm repos))"
      using ih cs1 item by auto
    have b: "fst ` set gs' = fst ` set gs \<union> {nm \<in> fst ` set (item # items). records_for nm repos \<noteq> []}"
      using ih item True by auto
    have c: "(n, h) \<in> set gs' \<Longrightarrow> (n, h) \<in> set gs \<or>
      (\<exists>info. (n, info) \<in> set (item # items) \<and> records_for n repos \<noteq> [] \<and>
              rescale_group co so info (records_for n repos) = Inr h)" for n h
    proof -
      assume "(n, h) \<in> set gs'"
      with ih consider "(n, h) \<in> set gs"
        | "\<exists>info. (n, info) \<in> set items \<and> records_for n repos \<noteq> [] \<and>
              rescale_group co so info (records_for n repos) = Inr h"
        by blast
      then show ?thesis by cases auto
    qed
    show ?thesis using a b c by blast
  next
    case False
    then obtain g where g: "rescale_group co so info (records_for nm repos) = Inr g"
      and rest: "rescale_loop co so repos items (?cs1, AList.update nm g gs) = Inr (cs', gs')"
      using Cons.prems item
      by (cases "rescale_group co so info (records_for nm repos)")
         (simp_all add: rescale_loop_step del: rescale_loop.simps)
    note ih = Cons.IH[OF rest]
    have a: "set cs' = set cs \<union> (\<Union>nm \<in> fst ` set (item # items). set (containing nm repos))"
      using ih cs1 item by auto
    have b: "fst ` set gs' = fst ` set gs \<union> {nm \<in> fst ` set (item # items). records_for nm repos \<noteq> []}"
      using ih item False by (auto simp: AList.dom_update)
    have c: "(n, h) \<in> set gs' \<Longrightarrow> (n, h) \<in> set gs \<or>
      (\<exists>info. (n, info) \<in> set (item # items) \<and> records_for n repos \<noteq> [] \<and>
              rescale_group co so info (records_for n repos) = Inr h)" for n h
    proof -
      assume "(n, h) \<in> set gs'"
      with ih consider "(n, h) \<in> set (AList.update nm g gs)"
        | "\<exists>info. (n, info) \<in> set items \<and> records_for n repos \<noteq> [] \<and>
              rescale_group co so info (records_for n repos) = Inr h"
        by blast
      then show ?thesis
      proof cases
        case 1
        from set_update_cases[OF this] show ?thesis using g item False by auto
      next
        case 2
        then show ?thesis by auto
      qed
    qed
    show ?thesis using a b c by blast
  qed
qed

lemma rescale_group_fields:
  assumes "rescale_group co so info ps = Inr g"
  shows "info_name g = info_name info \<and>
    (\<exists>k t. is_winner (k, t) (order_pairs co ps) \<and>
       map_of (info_data g) =
         (((map_of (info_data info))
             (''subdirs'' \<mapsto> JList (map JStr (sorted_set (map pkg_subdir ps)))))
             (''timestamp'' := timestamp_field t))
             (''version'' \<mapsto> JStr (so k)))"
proof (cases "py_max (order_pairs co ps)")
  case (Inl e)
  then show ?thesis using assms by (simp add: rescale_group_def Let_def)
next
  case (Inr w)
  obtain k t where w: "w = (k, t)" by (cases w)
  have win: "is_winner (k, t) (order_pairs co ps)"
    using py_max_winner[OF Inr] w by simp
  have g: "g = update_latest (update_subdirs info (sorted_set (map pkg_subdir ps))) (so k) t"
    using assms Inr w by (simp add: rescale_group_def Let_def)
  have n: "info_name g = info_name info"
    by (simp add: g update_latest_def update_subdirs_def ChannelGroupInfo_def Let_def)
  have m: "map_of (info_data g) =
         (((map_of (info_data info))
             (''subdirs'' \<mapsto> JList (map JStr (sorted_set (map pkg_subdir ps)))))
             (''timestamp'' := timestamp_field t))
             (''version'' \<mapsto> JStr (so k))"
    by (cases t)
       (simp_all add: g update_latest_def update_subdirs_def ChannelGroupInfo_def Let_def
          timestamp_field_def AList.update_conv' AList.delete_conv')
  show ?thesis using n win m by blast
qed

lemma rescale_facts:
  assumes "rescale co so s repos = Inr r"
  shows "set (subdirs r) = (\<Union>nm \<in> fst ` set (groups s). set (containing nm repos))"
    and "fst ` set (groups r) = {nm \<in> fst ` set (groups s). records_for nm repos \<noteq> []}"
    and "(nm, g) \<in> set (groups r) \<Longrightarrow>
           \<exists>info. (nm, info) \<in> set (groups s) \<and> records_for nm repos \<noteq> [] \<and>
                  rescale_group co so info (records_for nm repos) = Inr g"
proof -
  obtain cs gs where l: "rescale_loop co so repos (groups s) ([], []) = Inr (cs, gs)"
    and r: "r = \<lparr>subdirs = cs, groups = gs\<rparr>"
    using assms by (auto simp: rescale_def split: sum.splits)
  note inv = rescale_loop_inv[OF l]
  show "set (subdirs r) = (\<Union>nm \<in> fst ` set (groups s). set (containing nm repos))"
    using inv r by simp
  show "fst ` set (groups r) = {nm \<in> fst ` set (groups s). records_for nm repos \<noteq> []}"
    using inv r by simp
  show "(nm, g) \<in> set (groups r) \<Longrightarrow>
           \<exists>info. (nm, info) \<in> set (groups s) \<and> records_for nm repos \<noteq> [] \<and>
                  rescale_group co so info (records_for nm repos) = Inr g"
    using inv r by simp
qed

lemma json_strings_JStr: "json_strings (map JStr xs) = xs"
  by (induction xs) simp_all

lemma records_for_mem:
  "p \<in> set (records_for nm repos) \<longleftrightarrow>
   (\<exists>repo rs. repo \<in> set repos \<and> map_of (repo_groups repo) nm = Some rs \<and> p \<in> set rs)"
proof (induction repos)
  case Nil
  then show ?case by (simp add: records_for_def)
next
  case (Cons repo repos)
  have "p \<in> set (records_for nm (repo # repos)) \<longleftrightarrow>
        (\<exists>rs. map_of (repo_groups repo) nm = Some rs \<and> p \<in> set rs) \<or>
        p \<in> set (records_for nm repos)"
    by (cases "map_of (repo_groups repo) nm") (simp_all add: records_for_def)
  then show ?case using Cons.IH by auto
qed

lemma containing_mem:
  "x \<in> set (containing nm repos) \<longleftrightarrow>
   (\<exists>repo. repo \<in> set repos \<and> repo_contains repo nm \<and> x = repo_subdir repo)"
  by (auto simp: containing_def)

text \<open>\<open>rescale\<close> returns a snapshot when every record has a timestamp.\<close>

lemma rescale_group_returns:
  assumes "ps \<noteq> []" and "\<forall>p \<in> set ps. pkg_timestamp p \<noteq> None"
  shows "\<exists>g. rescale_group co so info ps = Inr g"
proof -
  have "order_pairs co ps \<noteq> []" using assms(1) by (simp add: order_pairs_def)
  moreover have "\<forall>q \<in> set (order_pairs co ps). snd q \<noteq> None"
    using assms(2) by (auto simp: order_pairs_def)
  ultimately obtain w where w: "py_max (order_pairs co ps) = Inr w"
    using py_max_present by blast
  obtain k t where "w = (k, t)" by (cases w)
  with w show ?thesis by (simp add: rescale_group_def Let_def)
qed

lemma rescale_loop_returns:
  assumes "timestamps_present repos"
  shows "\<exists>st'. rescale_loop co so repos items (cs, gs) = Inr st'"
proof (induction items arbitrary: cs gs)
  case Nil
  then show ?case by simp
next
  case (Cons item items)
  obtain nm info where item: "item = (nm, info)" by (cases item)
  show ?case
  proof (cases "records_for nm repos = []")
    case True
    then show ?thesis using Cons.IH item
      by (simp add: rescale_loop_step del: rescale_loop.simps)
  next
    case False
    have "\<forall>p \<in> set (records_for nm repos). pkg_timestamp p \<noteq> None"
    proof
      fix p assume "p \<in> set (records_for nm repos)"
      then obtain repo rs where "repo \<in> set repos" "map_of (repo_groups repo) nm = Some rs"
        "p \<in> set rs" unfolding records_for_mem by blast
      moreover then have "(nm, rs) \<in> set (repo_groups repo)" by (simp add: map_of_SomeD)
      ultimately show "pkg_timestamp p \<noteq> None"
        using assms unfolding timestamps_present_def by blast
    qed
    from rescale_group_returns[OF False this, of co so info]
    obtain g where "rescale_group co so info (records_for nm repos) = Inr g" by blast
    then show ?thesis using Cons.IH item False
      by (simp add: rescale_loop_step del: rescale_loop.simps)
  qed
qed

lemma rescale_returns:
  assumes "timestamps_present repos"
  shows "\<exists>r. rescale co so s repos = Inr r"
proof -
  from rescale_loop_returns[OF assms, of co so "groups s" "[]" "[]"]
  obtain st where "rescale_loop co so repos (groups s) ([], []) = Inr st" by blast
  then show ?thesis by (cases st) (simp add: rescale_def)
qed

text \<open>The end-to-end example of the specification, evaluated.\<close>

lemma rescale_example:
  "rescale text_order key_text numpy_channel [linux_repo, osx_repo] = Inr rescaled_channel"
  by (simp add: rescale_def numpy_channel_def linux_repo_def osx_repo_def rescaled_channel_def
      rescaled_numpy_def rescale_group_def order_pairs_def py_max_def sorted_set_def set_add_def
      update_latest_def update_subdirs_def ChannelGroupInfo_def text_order_def key_text_def
      Let_def)

section \<open>The claims\<close>

subsection \<open>\<open>ChannelGroupInfo\<close>\<close>

text \<open>
  Claim C7. For every group \<open>g\<close>, version string \<open>v\<close> and timestamp \<open>t\<close>,
  \<open>update_latest\<close> returns a group of the same name whose field bag has no \<open>timestamp\<close>
  key when \<open>t\<close> is absent or zero (whatever \<open>g\<close> had), has \<open>timestamp\<close> equal to \<open>t\<close>
  otherwise, has \<open>version\<close> equal to \<open>v\<close> in every case, and holds every other field of
  \<open>g\<close> unchanged.
\<close>

theorem update_latest_fields:
  "info_name (update_latest g v t) = info_name g \<and>
   map_of (info_data (update_latest g v t)) ''version'' = Some (JStr v) \<and>
   ((t = None \<or> t = Some 0) \<longrightarrow>
      map_of (info_data (update_latest g v t)) ''timestamp'' = None) \<and>
   (\<forall>n. t = Some n \<and> n \<noteq> 0 \<longrightarrow>
        map_of (info_data (update_latest g v t)) ''timestamp'' = Some (JInt n)) \<and>
   (\<forall>k. k \<noteq> ''timestamp'' \<and> k \<noteq> ''version'' \<longrightarrow>
        map_of (info_data (update_latest g v t)) k = map_of (info_data g) k)"
  by (cases t)
     (simp_all add: update_latest_def ChannelGroupInfo_def Let_def AList.update_conv'
        AList.delete_conv')

theorem update_latest_fields_witness:
  "map_of (info_data numpy_info) ''timestamp'' = Some (JInt 50) \<and>
   map_of (info_data (update_latest numpy_info ''2.0'' (Some 0))) ''timestamp'' = None \<and>
   map_of (info_data (update_latest numpy_info ''2.0'' None)) ''timestamp'' = None \<and>
   map_of (info_data (update_latest numpy_info ''2.0'' (Some 70))) ''timestamp'' = Some (JInt 70) \<and>
   map_of (info_data (update_latest numpy_info ''2.0'' (Some 70))) ''version'' = Some (JStr ''2.0'') \<and>
   map_of (info_data (update_latest numpy_info ''2.0'' None)) ''license'' = Some (JStr ''BSD'')"
  using update_latest_fields[of numpy_info "''2.0''" "Some 0"]
    update_latest_fields[of numpy_info "''2.0''" None]
    update_latest_fields[of numpy_info "''2.0''" "Some 70"]
  by (simp add: numpy_info_def ChannelGroupInfo_def)

text \<open>
  Claim C9. Two groups of the same name are equal under \<open>__eq__\<close> and have the same
  hash, whatever their field bags hold: equality is equality of the names, and the hash
  is the hash of the name.
\<close>

theorem eq_hash_by_name:
  "(info_eq g h \<longleftrightarrow> info_name g = info_name h) \<and>
   (info_name g = info_name h \<longrightarrow> info_eq g h \<and> info_hash hash g = info_hash hash h)"
  by (simp add: info_eq_def info_hash_def)

theorem eq_hash_by_name_witness:
  "info_name numpy_info = info_name numpy_other \<and>
   info_data numpy_info \<noteq> info_data numpy_other \<and>
   info_eq numpy_info numpy_other \<and>
   info_hash (\<lambda>s. int (length s)) numpy_info = info_hash (\<lambda>s. int (length s)) numpy_other"
  using eq_hash_by_name[of numpy_info numpy_other "\<lambda>s. int (length s)"]
  by (simp add: numpy_info_def numpy_other_def ChannelGroupInfo_def)

subsection \<open>Parsing and serialising\<close>

text \<open>
  Claim C4, as amended. A dictionary \<open>d\<close> whose schema tag is the supported constant
  parses, and serialising the parsed snapshot gives the three schema keys of \<open>d\<close> back,
  the \<open>subdirs\<close> list sorted: the tag and every package entry with its whole field bag
  come back as they were. Any other top-level key of \<open>d\<close> is dropped, so the result is
  \<open>d\<close> up to the sorting of \<open>subdirs\<close> exactly when \<open>d\<close> has no other top-level key. The
  \<open>packages\<close> of \<open>d\<close> are a dictionary (each name once).
\<close>

theorem dump_from_data:
  assumes "channeldata_version d = VERSION" and "distinct (map fst (dict_packages d))"
  shows "\<exists>cd. from_data d = Inr cd \<and>
           dump cd = d\<lparr>dict_subdirs := sort (dict_subdirs d), dict_others := []\<rparr> \<and>
           (dump cd = d\<lparr>dict_subdirs := sort (dict_subdirs d)\<rparr> \<longleftrightarrow> dict_others d = [])"
proof -
  let ?gs = "map (\<lambda>(n, dat). (n, ChannelGroupInfo n dat)) (dict_packages d)"
  let ?cd = "\<lparr>subdirs = dict_subdirs d, groups = ?gs\<rparr>"
  have g: "from_data_loop (dict_packages d) [] = ?gs"
    using from_data_loop_append[OF assms(2), of "[]"] by simp
  have k: "map fst ?gs = map fst (dict_packages d)" by (simp add: case_prod_unfold comp_def)
  have dk: "distinct (map fst ?gs)" using assms(2) by (simp only: k)
  have "dump_loop ?gs [] = [] @ map (\<lambda>(n, g). (n, info_dump g)) ?gs"
    by (rule dump_loop_append[OF dk]) simp
  then have "dump_loop ?gs [] = map (\<lambda>(n, g). (n, info_dump g)) ?gs" by simp
  also have "\<dots> = dict_packages d"
    by (simp add: info_dump_def ChannelGroupInfo_def case_prod_unfold comp_def)
  finally have p: "dump_loop ?gs [] = dict_packages d" .
  have f: "from_data d = Inr ?cd"
    using assms(1) g by (simp add: from_data_def Let_def)
  have e: "dump ?cd = d\<lparr>dict_subdirs := sort (dict_subdirs d), dict_others := []\<rparr>"
    using assms(1) p by (simp add: dump_def)
  have "(dump ?cd = d\<lparr>dict_subdirs := sort (dict_subdirs d)\<rparr>) = (dict_others d = [])"
  proof
    assume "dump ?cd = d\<lparr>dict_subdirs := sort (dict_subdirs d)\<rparr>"
    then have "dict_others (dump ?cd) = dict_others (d\<lparr>dict_subdirs := sort (dict_subdirs d)\<rparr>)"
      by (rule arg_cong)
    then show "dict_others d = []" by (simp add: dump_def)
  next
    assume "dict_others d = []"
    then show "dump ?cd = d\<lparr>dict_subdirs := sort (dict_subdirs d)\<rparr>"
      using e by simp
  qed
  with f e show ?thesis by blast
qed

text \<open>
  The claim as first stated fails on a dictionary with a further top-level key: it
  parses, and the serialised snapshot has lost the key.
\<close>

theorem dump_from_data_counterexample:
  "channeldata_version extra_dict = VERSION \<and>
   from_data extra_dict = Inr extra_parsed \<and>
   dict_others extra_dict = [(''generator'', JStr ''conda-index'')] \<and>
   dict_others (dump extra_parsed) = [] \<and>
   dump extra_parsed \<noteq> extra_dict\<lparr>dict_subdirs := sort (dict_subdirs extra_dict)\<rparr>"
proof -
  have v: "channeldata_version extra_dict = VERSION"
    by (simp add: extra_dict_def example_dict_def VERSION_def)
  have f: "from_data extra_dict = Inr extra_parsed"
    by (simp add: from_data_def extra_dict_def example_dict_def extra_parsed_def VERSION_def
          ChannelGroupInfo_def)
  have o: "dict_others extra_dict = [(''generator'', JStr ''conda-index'')]"
    by (simp add: extra_dict_def)
  have n: "dict_others (dump extra_parsed) = []"
    by (simp add: dump_def)
  have "dict_others (dump extra_parsed) \<noteq>
        dict_others (extra_dict\<lparr>dict_subdirs := sort (dict_subdirs extra_dict)\<rparr>)"
    by (simp add: dump_def extra_dict_def)
  then have "dump extra_parsed \<noteq> extra_dict\<lparr>dict_subdirs := sort (dict_subdirs extra_dict)\<rparr>"
    by (rule contrapos_nn) (rule arg_cong)
  with v f o n show ?thesis by (intro conjI)
qed

theorem dump_from_data_witness:
  "channeldata_version example_dict = VERSION \<and>
   distinct (map fst (dict_packages example_dict)) \<and>
   dict_others example_dict = [] \<and>
   (\<exists>cd. from_data example_dict = Inr cd \<and>
      dump cd =
        \<lparr>channeldata_version = 1,
         dict_packages =
           [(''numpy'',
             [(''version'', JStr ''1.0''), (''timestamp'', JInt 50), (''license'', JStr ''BSD'')]),
            (''bare'', [(''home'', JStr ''x'')])],
         dict_subdirs = [''linux-64'', ''osx-64''],
         dict_others = []\<rparr>)"
proof -
  have v: "channeldata_version example_dict = VERSION"
    by (simp add: example_dict_def VERSION_def)
  have d: "distinct (map fst (dict_packages example_dict))"
    by (simp add: example_dict_def)
  have o: "dict_others example_dict = []"
    by (simp add: example_dict_def)
  have s: "example_dict\<lparr>dict_subdirs := sort (dict_subdirs example_dict), dict_others := []\<rparr> =
        \<lparr>channeldata_version = 1,
         dict_packages =
           [(''numpy'',
             [(''version'', JStr ''1.0''), (''timestamp'', JInt 50), (''license'', JStr ''BSD'')]),
            (''bare'', [(''home'', JStr ''x'')])],
         dict_subdirs = [''linux-64'', ''osx-64''],
         dict_others = []\<rparr>"
    by (simp add: example_dict_def)
  from dump_from_data[OF v d]
  obtain cd where "from_data example_dict = Inr cd"
    "dump cd = example_dict\<lparr>dict_subdirs := sort (dict_subdirs example_dict), dict_others := []\<rparr>"
    by (elim exE conjE)
  then have "\<exists>cd. from_data example_dict = Inr cd \<and>
      dump cd =
        \<lparr>channeldata_version = 1,
         dict_packages =
           [(''numpy'',
             [(''version'', JStr ''1.0''), (''timestamp'', JInt 50), (''license'', JStr ''BSD'')]),
            (''bare'', [(''home'', JStr ''x'')])],
         dict_subdirs = [''linux-64'', ''osx-64''],
         dict_others = []\<rparr>"
    unfolding s by (intro exI conjI)
  with v d o show ?thesis by (intro conjI)
qed

text \<open>
  Claim C8. Parsing a dictionary that has the three keys fails exactly when the schema tag
  is not \<open>1\<close>, and then with \<open>InvalidChannel\<close>, whatever the packages and subdirs are (the
  check comes before the groups are read). With the tag \<open>1\<close> parsing succeeds and stores
  a group for every package name; an entry without a \<open>version\<close> field is stored like any
  other, and only reading the version of its group raises \<open>KeyError\<close>.
\<close>

theorem from_data_errors:
  "((\<exists>e. from_data d = Inl e) \<longleftrightarrow> channeldata_version d \<noteq> 1) \<and>
   (channeldata_version d \<noteq> 1 \<longrightarrow>
      (\<forall>ps sds. from_data (d\<lparr>dict_packages := ps, dict_subdirs := sds\<rparr>) =
         Inl (InvalidChannel (channeldata_version d)))) \<and>
   (channeldata_version d = 1 \<longrightarrow>
      (\<exists>cd. from_data d = Inr cd \<and> subdirs cd = dict_subdirs d \<and>
         fst ` set (groups cd) = fst ` set (dict_packages d) \<and>
         (\<forall>nm dat. distinct (map fst (dict_packages d)) \<and> (nm, dat) \<in> set (dict_packages d) \<and>
                   map_of dat ''version'' = None \<longrightarrow>
            (\<exists>g. map_of (groups cd) nm = Some g \<and> info_data g = dat \<and>
                 info_version g = Inl (KeyError ''version'')))))"
proof -
  have lazy: "\<exists>g. map_of (from_data_loop (dict_packages d) []) nm = Some g \<and> info_data g = dat \<and>
                 info_version g = Inl (KeyError ''version'')"
    if dist: "distinct (map fst (dict_packages d))" and mem: "(nm, dat) \<in> set (dict_packages d)"
      and nov: "map_of dat ''version'' = None" for nm dat
  proof -
    let ?gs = "map (\<lambda>(n, dat). (n, ChannelGroupInfo n dat)) (dict_packages d)"
    have g: "from_data_loop (dict_packages d) [] = ?gs"
      using from_data_loop_append[OF dist, of "[]"] by simp
    have k: "map fst ?gs = map fst (dict_packages d)" by (simp add: case_prod_unfold comp_def)
    have "(nm, ChannelGroupInfo nm dat) \<in> set ?gs" using mem by force
    moreover have "distinct (map fst ?gs)" using dist by (simp only: k)
    ultimately have "map_of ?gs nm = Some (ChannelGroupInfo nm dat)" by (rule map_of_is_SomeI[rotated])
    then show ?thesis using g nov by (simp add: ChannelGroupInfo_def info_version_def)
  qed
  show ?thesis
  proof (cases "channeldata_version d = 1")
    case True
    then have p: "from_data d =
        Inr \<lparr>subdirs = dict_subdirs d, groups = from_data_loop (dict_packages d) []\<rparr>"
      by (simp add: from_data_def Let_def VERSION_def)
    show ?thesis using True lazy by (simp add: p from_data_loop_keys)
  next
    case False
    then show ?thesis by (simp add: from_data_def Let_def VERSION_def)
  qed
qed

theorem from_data_errors_witness:
  "from_data (example_dict\<lparr>channeldata_version := 2\<rparr>) = Inl (InvalidChannel 2) \<and>
   (\<exists>cd g. from_data example_dict = Inr cd \<and> map_of (groups cd) ''bare'' = Some g \<and>
      info_version g = Inl (KeyError ''version''))"
proof -
  have a: "channeldata_version (example_dict\<lparr>channeldata_version := 2\<rparr>) \<noteq> 1" by simp
  have b: "channeldata_version example_dict = 1" by (simp add: example_dict_def)
  have c: "distinct (map fst (dict_packages example_dict)) \<and>
     (''bare'', [(''home'', JStr ''x'')]) \<in> set (dict_packages example_dict) \<and>
     map_of [(''home'', JStr ''x'')] ''version'' = None"
    by (simp add: example_dict_def)
  have "from_data (example_dict\<lparr>channeldata_version := 2\<rparr>) = Inl (InvalidChannel 2)"
    using from_data_errors[of "example_dict\<lparr>channeldata_version := 2\<rparr>"] a
    by (simp add: example_dict_def)
  moreover have "\<exists>cd g. from_data example_dict = Inr cd \<and> map_of (groups cd) ''bare'' = Some g \<and>
      info_version g = Inl (KeyError ''version'')"
  proof -
    note t = from_data_errors[of example_dict, THEN conjunct2, THEN conjunct2, rule_format, OF b]
    from t obtain cd where cd: "from_data example_dict = Inr cd"
      and l: "\<forall>nm dat. distinct (map fst (dict_packages example_dict)) \<and>
                (nm, dat) \<in> set (dict_packages example_dict) \<and> map_of dat ''version'' = None \<longrightarrow>
            (\<exists>g. map_of (groups cd) nm = Some g \<and> info_data g = dat \<and>
                 info_version g = Inl (KeyError ''version''))"
      by (elim exE conjE)
    from l[rule_format, OF c] obtain g where "map_of (groups cd) ''bare'' = Some g"
      "info_version g = Inl (KeyError ''version'')" by (elim exE conjE)
    with cd show ?thesis by (intro exI conjI)
  qed
  ultimately show ?thesis by simp
qed

subsection \<open>Merging\<close>

text \<open>
  Claim C3. For all snapshots \<open>a\<close> and \<open>b\<close>, \<open>a.merge(b)\<close> returns a snapshot (the
  lookup \<open>other[key]\<close> never fails) whose subdir list is the sorted union of the subdirs
  of \<open>a\<close> and \<open>b\<close>, whose group names are those of \<open>a\<close> and those of \<open>b\<close>, and in which
  a name of \<open>a\<close> maps to the group \<open>a\<close> has for it, whole, also when \<open>b\<close> has the name too;
  a name of \<open>b\<close> alone maps to the group of \<open>b\<close>.
\<close>

theorem merge_result:
  "\<exists>m. merge a b = Inr m \<and>
     subdirs m = sorted_list_of_set (set (subdirs a) \<union> set (subdirs b)) \<and>
     fst ` set (groups m) = fst ` set (groups a) \<union> fst ` set (groups b) \<and>
     (\<forall>nm g. map_of (groups a) nm = Some g \<longrightarrow> map_of (groups m) nm = Some g) \<and>
     (\<forall>nm. map_of (groups a) nm = None \<longrightarrow> map_of (groups m) nm = map_of (groups b) nm)"
proof -
  let ?keys = "sorted_set (map fst (groups a) @ map fst (groups b))"
  have ks: "set ?keys = fst ` set (groups a) \<union> fst ` set (groups b)"
    by (simp add: set_sorted_set)
  then have "set ?keys \<subseteq> fst ` set (groups a) \<union> fst ` set (groups b)" by simp
  from merge_loop_result[OF this, of "[]"]
  obtain r where r: "merge_loop (groups a) (groups b) ?keys [] = Inr r"
    "fst ` set r = set ?keys"
    "\<forall>key. map_of r key = (if key \<in> set ?keys then prefer_self (groups a) (groups b) key else None)"
    by auto
  have m: "merge a b = Inr \<lparr>subdirs = sorted_set (subdirs a @ subdirs b), groups = r\<rparr>"
    using r(1) by (simp add: merge_def Let_def)
  have l: "map_of r nm = prefer_self (groups a) (groups b) nm" for nm
  proof (cases "nm \<in> set ?keys")
    case True
    then show ?thesis using r(3) by simp
  next
    case False
    then have "map_of (groups a) nm = None" "map_of (groups b) nm = None"
      using ks by (auto simp: map_of_eq_None_iff)
    then show ?thesis using r(3) False by (simp add: prefer_self_def)
  qed
  show ?thesis
    using m r(2) ks l by (simp add: sorted_set_eq prefer_self_def)
qed

theorem merge_result_witness:
  "map_of (groups channel_a) ''numpy'' = Some numpy_info \<and>
   map_of (groups channel_b) ''numpy'' = Some numpy_other \<and>
   info_data numpy_info \<noteq> info_data numpy_other \<and>
   map_of (groups channel_a) ''scipy'' = None \<and>
   (\<exists>m. merge channel_a channel_b = Inr m \<and>
        map_of (groups m) ''numpy'' = Some numpy_info \<and>
        map_of (groups m) ''scipy'' = Some scipy_info \<and>
        subdirs m = [''linux-64'', ''noarch'', ''osx-64''])"
proof -
  have a: "map_of (groups channel_a) ''numpy'' = Some numpy_info"
    by (simp add: channel_a_def)
  have b: "map_of (groups channel_b) ''numpy'' = Some numpy_other"
    by (simp add: channel_b_def)
  have c: "info_data numpy_info \<noteq> info_data numpy_other"
    by (simp add: numpy_info_def numpy_other_def ChannelGroupInfo_def)
  have d: "map_of (groups channel_a) ''scipy'' = None"
    by (simp add: channel_a_def)
  have e: "map_of (groups channel_b) ''scipy'' = Some scipy_info"
    by (simp add: channel_b_def)
  have "sorted_list_of_set (set (subdirs channel_a) \<union> set (subdirs channel_b)) =
        sorted_set (subdirs channel_a @ subdirs channel_b)"
    by (simp add: sorted_set_eq)
  also have "\<dots> = [''linux-64'', ''noarch'', ''osx-64'']"
    by (simp add: channel_a_def channel_b_def sorted_set_def)
  finally have s: "sorted_list_of_set (set (subdirs channel_a) \<union> set (subdirs channel_b)) =
           [''linux-64'', ''noarch'', ''osx-64'']" .
  from merge_result[of channel_a channel_b]
  obtain m where m: "merge channel_a channel_b = Inr m"
    and sd: "subdirs m = sorted_list_of_set (set (subdirs channel_a) \<union> set (subdirs channel_b))"
    and w: "\<forall>nm g. map_of (groups channel_a) nm = Some g \<longrightarrow> map_of (groups m) nm = Some g"
    and o: "\<forall>nm. map_of (groups channel_a) nm = None \<longrightarrow>
              map_of (groups m) nm = map_of (groups channel_b) nm"
    by (elim exE conjE)
  have n: "map_of (groups m) ''numpy'' = Some numpy_info" using w[rule_format, OF a] .
  have "map_of (groups m) ''scipy'' = map_of (groups channel_b) ''scipy''"
    using o[rule_format, OF d] .
  then have sc: "map_of (groups m) ''scipy'' = Some scipy_info" by (simp only: e)
  from m n sc sd s have "\<exists>m. merge channel_a channel_b = Inr m \<and>
      map_of (groups m) ''numpy'' = Some numpy_info \<and>
      map_of (groups m) ''scipy'' = Some scipy_info \<and>
      subdirs m = [''linux-64'', ''noarch'', ''osx-64'']" by simp
  with a b c d show ?thesis by (intro conjI)
qed

subsection \<open>Rescaling\<close>

text \<open>
  Claim C1. Among the records of a group, \<open>rescale\<close> is to pick the greatest pair
  \<open>(order key, timestamp)\<close> in the lexicographic order, an absent timestamp lowest in a
  tie on the order key. On the code, two records of one group with the same order key,
  one without a timestamp and one with the timestamp \<open>100\<close>, make \<open>max\<close> compare \<open>None\<close>
  with an integer: \<open>rescale\<close> raises \<open>TypeError\<close> and returns no snapshot, whatever the
  version order is. (When \<open>max\<close> returns, its result is the winner of the claim:
  \<open>py_max_winner\<close>; it returns when every timestamp is present: \<open>py_max_present\<close>, and
  then so does \<open>rescale\<close>: \<open>rescale_returns\<close>.)
\<close>

theorem rescale_tie_absent_timestamp:
  "rescale create_order str_order numpy_channel [tie_repo] = Inl TypeError"
  by (simp add: rescale_def numpy_channel_def tie_repo_def
      rescale_group_def order_pairs_def py_max_def sorted_set_def set_add_def
      update_latest_def update_subdirs_def ChannelGroupInfo_def Let_def)



text \<open>
  Claim C5. A group name for which the repos hold no record is absent from the snapshot
  \<open>rescale\<close> returns.
\<close>

theorem rescale_drops_unlisted:
  assumes "rescale co so s repos = Inr r" and "records_for nm repos = []"
  shows "nm \<notin> fst ` set (groups r) \<and> map_of (groups r) nm = None"
proof -
  have "nm \<notin> fst ` set (groups r)"
    using rescale_facts(2)[OF assms(1)] assms(2) by simp
  then show ?thesis by (simp add: map_of_eq_None_iff)
qed

theorem rescale_drops_unlisted_witness:
  "''gone'' \<in> fst ` set (groups numpy_channel) \<and>
   records_for ''gone'' [linux_repo, osx_repo] = [] \<and>
   rescale text_order key_text numpy_channel [linux_repo, osx_repo] = Inr rescaled_channel \<and>
   ''gone'' \<notin> fst ` set (groups rescaled_channel) \<and>
   map_of (groups rescaled_channel) ''gone'' = None"
proof -
  have a: "rescale text_order key_text numpy_channel [linux_repo, osx_repo] = Inr rescaled_channel"
    by (rule rescale_example)
  have b: "records_for ''gone'' [linux_repo, osx_repo] = []"
    by (simp add: records_for_def linux_repo_def osx_repo_def)
  have c: "''gone'' \<in> fst ` set (groups numpy_channel)"
    by (simp add: numpy_channel_def)
  from rescale_drops_unlisted[OF a b] a b c show ?thesis by (intro conjI) simp_all
qed

text \<open>
  Claim C6, as amended. In a snapshot \<open>rescale\<close> returns, the \<open>subdirs\<close> field of every
  group is the sorted list of the distinct subdirs of the records collected for its name,
  and the snapshot's subdir list holds exactly the subdirs of the repos that contain at
  least one group name of the input snapshot, whether or not that group survives. It is
  the union of the subdirs of the surviving groups when the repos are consistent: every
  name a repo contains has a record there, and every record carries the subdir of its
  repo. The input snapshot's own subdir list plays no part.
\<close>

theorem rescale_subdirs:
  assumes "rescale co so s repos = Inr r"
  shows "(\<forall>nm g. (nm, g) \<in> set (groups r) \<longrightarrow>
            map_of (info_data g) ''subdirs'' =
              Some (JList (map JStr (sorted_list_of_set (pkg_subdir ` set (records_for nm repos)))))) \<and>
         set (subdirs r) =
           {repo_subdir repo | repo. repo \<in> set repos \<and>
              (\<exists>nm \<in> fst ` set (groups s). repo_contains repo nm)} \<and>
         (consistent repos \<longrightarrow> set (subdirs r) = surviving_subdirs r)"
proof -
  have field: "map_of (info_data g) ''subdirs'' =
      Some (JList (map JStr (sorted_list_of_set (pkg_subdir ` set (records_for nm repos)))))"
    if "(nm, g) \<in> set (groups r)" for nm g
  proof -
    from rescale_facts(3)[OF assms that]
    obtain info where "rescale_group co so info (records_for nm repos) = Inr g" by blast
    from rescale_group_fields[OF this]
    obtain k t where m: "map_of (info_data g) =
         (((map_of (info_data info))
             (''subdirs'' \<mapsto> JList (map JStr (sorted_set (map pkg_subdir (records_for nm repos))))))
             (''timestamp'' := timestamp_field t))
             (''version'' \<mapsto> JStr (so k))"
      by blast
    show ?thesis by (simp add: m sorted_set_eq)
  qed
  have subs: "set (subdirs r) =
      {repo_subdir repo | repo. repo \<in> set repos \<and>
         (\<exists>nm \<in> fst ` set (groups s). repo_contains repo nm)}"
    unfolding rescale_facts(1)[OF assms] using containing_mem by blast
  have cons: "set (subdirs r) = surviving_subdirs r" if c: "consistent repos"
  proof (intro set_eqI iffI)
    fix x assume "x \<in> set (subdirs r)"
    then obtain repo nm where repo: "repo \<in> set repos" and nm: "nm \<in> fst ` set (groups s)"
      and cont: "repo_contains repo nm" and x: "x = repo_subdir repo"
      unfolding subs by blast
    from cont obtain rs where rs: "map_of (repo_groups repo) nm = Some rs"
      by (auto simp: repo_contains_def)
    then have "(nm, rs) \<in> set (repo_groups repo)" by (rule map_of_SomeD)
    with c repo have ne: "rs \<noteq> []" and sd: "\<forall>p \<in> set rs. pkg_subdir p = repo_subdir repo"
      unfolding consistent_def by blast+
    from ne obtain p where p: "p \<in> set rs" by (cases rs) auto
    then have pin: "p \<in> set (records_for nm repos)"
      using repo rs unfolding records_for_mem by blast
    then have "records_for nm repos \<noteq> []" by auto
    with nm have "nm \<in> fst ` set (groups r)"
      unfolding rescale_facts(2)[OF assms] by simp
    then obtain g where g: "(nm, g) \<in> set (groups r)" by auto
    have "group_subdirs g = sorted_list_of_set (pkg_subdir ` set (records_for nm repos))"
      by (simp add: group_subdirs_def field[OF g] json_strings_JStr)
    then have "pkg_subdir p \<in> set (group_subdirs g)" using pin by simp
    then have "x \<in> set (group_subdirs g)" using sd p x by simp
    then show "x \<in> surviving_subdirs r" using g unfolding surviving_subdirs_def by blast
  next
    fix x assume "x \<in> surviving_subdirs r"
    then obtain nm g where g: "(nm, g) \<in> set (groups r)" and x: "x \<in> set (group_subdirs g)"
      unfolding surviving_subdirs_def by blast
    have "group_subdirs g = sorted_list_of_set (pkg_subdir ` set (records_for nm repos))"
      by (simp add: group_subdirs_def field[OF g] json_strings_JStr)
    with x obtain p where pin: "p \<in> set (records_for nm repos)" and xp: "x = pkg_subdir p"
      by auto
    from pin obtain repo rs where repo: "repo \<in> set repos"
      and rs: "map_of (repo_groups repo) nm = Some rs" and p: "p \<in> set rs"
      unfolding records_for_mem by blast
    from rs have "(nm, rs) \<in> set (repo_groups repo)" by (rule map_of_SomeD)
    with c repo have sd: "\<forall>p \<in> set rs. pkg_subdir p = repo_subdir repo"
      unfolding consistent_def by blast
    have "nm \<in> fst ` set (groups r)" using g by force
    then have nm: "nm \<in> fst ` set (groups s)"
      unfolding rescale_facts(2)[OF assms] by simp
    have "repo_contains repo nm" using rs by (simp add: repo_contains_def)
    then show "x \<in> set (subdirs r)"
      unfolding subs using repo nm sd p xp by blast
  qed
  show ?thesis using field subs cons by blast
qed

text \<open>
  The claim as first stated fails on a repo that contains the name \<open>numpy\<close> with an empty
  sequence of records: no group survives, and the subdir of the repo is in the result.
\<close>

theorem rescale_subdirs_counterexample:
  "rescale text_order key_text numpy_channel [empty_repo] = Inr emptied_channel \<and>
   groups emptied_channel = [] \<and>
   surviving_subdirs emptied_channel = {} \<and>
   set (subdirs emptied_channel) = {''linux-64''} \<and>
   set (subdirs emptied_channel) \<noteq> surviving_subdirs emptied_channel"
  by (simp add: rescale_def numpy_channel_def empty_repo_def emptied_channel_def
      rescale_group_def order_pairs_def py_max_def sorted_set_def set_add_def
      update_latest_def update_subdirs_def ChannelGroupInfo_def Let_def surviving_subdirs_def)

theorem rescale_subdirs_witness:
  "rescale text_order key_text numpy_channel [linux_repo, osx_repo] = Inr rescaled_channel \<and>
   consistent [linux_repo, osx_repo] \<and>
   map_of (info_data rescaled_numpy) ''subdirs'' = Some (JList [JStr ''linux-64'', JStr ''osx-64'']) \<and>
   set (subdirs rescaled_channel) = surviving_subdirs rescaled_channel \<and>
   \<not> set (subdirs rescaled_channel) \<subseteq> set (subdirs numpy_channel)"
proof -
  have a: "rescale text_order key_text numpy_channel [linux_repo, osx_repo] = Inr rescaled_channel"
    by (rule rescale_example)
  have c: "consistent [linux_repo, osx_repo]"
    by (simp add: consistent_def linux_repo_def osx_repo_def)
  have f: "map_of (info_data rescaled_numpy) ''subdirs'' = Some (JList [JStr ''linux-64'', JStr ''osx-64''])"
    by (simp add: rescaled_numpy_def)
  have n: "\<not> set (subdirs rescaled_channel) \<subseteq> set (subdirs numpy_channel)"
    by (simp add: rescaled_channel_def numpy_channel_def)
  from rescale_subdirs[OF a] c
  have "set (subdirs rescaled_channel) = surviving_subdirs rescaled_channel"
    by (elim conjE impE)
  with a c f n show ?thesis by (intro conjI)
qed

subsection \<open>The invariant of the group mapping\<close>

text \<open>
  Claim C10. In every snapshot that \<open>from_data\<close> returns, every key of the group mapping
  is the name of its group; \<open>merge\<close> of two snapshots with that property returns a
  snapshot with it; and a snapshot that \<open>rescale\<close> returns from a snapshot with the
  property has it.
\<close>

theorem keys_named_preserved:
  "(from_data d = Inr cd \<longrightarrow> keys_named cd) \<and>
   (keys_named a \<and> keys_named b \<longrightarrow> (\<exists>m. merge a b = Inr m \<and> keys_named m)) \<and>
   (keys_named s \<and> rescale co so s repos = Inr r \<longrightarrow> keys_named r)"
proof (intro conjI impI)
  assume "from_data d = Inr cd"
  then have "groups cd = from_data_loop (dict_packages d) []"
    by (auto simp: from_data_def Let_def split: if_splits)
  moreover have "\<forall>(k, g) \<in> set (from_data_loop (dict_packages d) []). info_name g = k"
    by (rule from_data_loop_names) simp
  ultimately show "keys_named cd" by (simp add: keys_named_def)
next
  assume ab: "keys_named a \<and> keys_named b"
  let ?keys = "sorted_set (map fst (groups a) @ map fst (groups b))"
  have "set ?keys \<subseteq> fst ` set (groups a) \<union> fst ` set (groups b)"
    by (simp add: set_sorted_set)
  from merge_loop_result[OF this, of "[]"]
  obtain gs where l: "merge_loop (groups a) (groups b) ?keys [] = Inr gs" by blast
  have "\<forall>(k, g) \<in> set gs. info_name g = k"
    by (rule merge_loop_names[OF _ _ _ l]) (use ab in \<open>simp_all add: keys_named_def\<close>)
  then have "keys_named \<lparr>subdirs = sorted_set (subdirs a @ subdirs b), groups = gs\<rparr>"
    by (simp add: keys_named_def)
  moreover have "merge a b = Inr \<lparr>subdirs = sorted_set (subdirs a @ subdirs b), groups = gs\<rparr>"
    using l by (simp add: merge_def Let_def)
  ultimately show "\<exists>m. merge a b = Inr m \<and> keys_named m" by blast
next
  assume sr: "keys_named s \<and> rescale co so s repos = Inr r"
  have "info_name g = nm" if "(nm, g) \<in> set (groups r)" for nm g
  proof -
    from rescale_facts(3)[OF conjunct2[OF sr] that]
    obtain info where i: "(nm, info) \<in> set (groups s)"
      and rg: "rescale_group co so info (records_for nm repos) = Inr g" by blast
    have "info_name g = info_name info" using rescale_group_fields[OF rg] by blast
    moreover have "info_name info = nm" using sr i by (auto simp: keys_named_def)
    ultimately show ?thesis by simp
  qed
  then show "keys_named r" by (auto simp: keys_named_def)
qed

theorem keys_named_preserved_witness:
  "(\<exists>cd. from_data example_dict = Inr cd \<and> keys_named cd) \<and>
   keys_named channel_a \<and> keys_named channel_b \<and>
   (\<exists>m. merge channel_a channel_b = Inr m \<and> keys_named m) \<and>
   keys_named numpy_channel \<and>
   rescale text_order key_text numpy_channel [linux_repo, osx_repo] = Inr rescaled_channel \<and>
   keys_named rescaled_channel"
proof -
  have p: "from_data example_dict =
      Inr \<lparr>subdirs = dict_subdirs example_dict,
           groups = from_data_loop (dict_packages example_dict) []\<rparr>"
    by (simp add: from_data_def example_dict_def VERSION_def)
  have ka: "keys_named channel_a"
    by (simp add: keys_named_def channel_a_def numpy_info_def ChannelGroupInfo_def)
  have kb: "keys_named channel_b"
    by (simp add: keys_named_def channel_b_def numpy_other_def scipy_info_def ChannelGroupInfo_def)
  have ks: "keys_named numpy_channel"
    by (simp add: keys_named_def numpy_channel_def ChannelGroupInfo_def)
  have rs: "rescale text_order key_text numpy_channel [linux_repo, osx_repo] = Inr rescaled_channel"
    by (rule rescale_example)
  note t1 = keys_named_preserved[THEN conjunct1, rule_format, OF p]
  note t2 = keys_named_preserved[THEN conjunct2, THEN conjunct1, rule_format, OF conjI[OF ka kb]]
  note t3 = keys_named_preserved[THEN conjunct2, THEN conjunct2, rule_format, OF conjI[OF ks rs]]
  have "\<exists>cd. from_data example_dict = Inr cd \<and> keys_named cd"
    using p t1 by (intro exI conjI)
  with ka kb t2 ks rs t3 show ?thesis by (intro conjI)
qed

end
